theory Spec2Isabelle
  imports Main "HOL-Library.Word"
begin

section \<open>Core types (include/woved/types.h)\<close>

text \<open>
  Fixed-width integers are words. A \<^verbatim>\<open>float\<close> is kept as its 32-bit pattern: the storage
  layer only copies vectors and counts their elements. \<^verbatim>\<open>std::chrono::microseconds\<close> is a
  signed tick count. Strings are byte lists, so \<open>length\<close> is \<^verbatim>\<open>std::string::size()\<close>.
  A field name that several structs share carries a prefix in all but one of them
  (\<open>entry_id\<close>, \<open>msg_epoch\<close>, \<open>msg_timestamp\<close>, \<open>e_id\<close>, \<open>e_id_hash\<close>).
\<close>

type_synonym VectorId = string
type_synonym VectorIdHash = "64 word"
type_synonym Timestamp = int
type_synonym Epoch = "64 word"
type_synonym float32 = "32 word"
type_synonym Vector = "float32 list"
type_synonym TenantId = string
type_synonym TenantHash = "64 word"
type_synonym NamespaceId = string
type_synonym NamespaceHash = "64 word"
type_synonym TagId = "32 word"
type_synonym TagSet = "TagId list"
type_synonym CentroidId = "16 word"

datatype OperationType = INSERT | UPSERT | DELETE

record VectorEntry =
  entry_id :: VectorId
  id_hash :: VectorIdHash
  vector :: Vector
  tenant :: TenantId
  tenant_hash :: TenantHash
  namespace_id :: NamespaceId
  namespace_hash :: NamespaceHash
  tags :: TagSet
  created_at :: Timestamp
  updated_at :: Timestamp
  centroid_id :: CentroidId
  deleted :: bool

record BTreeMessage =
  op :: OperationType
  entry :: VectorEntry
  msg_epoch :: Epoch
  msg_timestamp :: Timestamp

section \<open>Latest-By-ID directory (storage/latest-by-id.h)\<close>

datatype LocationType = BUFFER | SEGMENT | DELETED

text \<open>
  \<open>local_id\<close> has no initialiser in the struct and neither \<^verbatim>\<open>append\<close> nor
  \<^verbatim>\<open>markDeleted\<close> assigns it: \<open>None\<close> stands for that indeterminate value.
\<close>

record VectorLocation =
  type :: LocationType
  segment_id :: string
  local_id :: "32 word option"
  timestamp :: Timestamp
  epoch :: Epoch
  tombstone :: bool

record Entry =
  e_id :: VectorId
  e_id_hash :: VectorIdHash
  location :: VectorLocation
  version :: "64 word"

text \<open>
  The two \<^verbatim>\<open>unordered_map\<close>s are partial functions; an \<^verbatim>\<open>Entry*\<close> is the entry stored
  under its hash. The \<^verbatim>\<open>size_t\<close> statistics counters and the version counter wrap
  around as 64-bit words. The reader/writer lock is not modelled: every operation runs
  to completion on its own. Member names drop their trailing underscore.
\<close>

record LatestByIdMap =
  id_map :: "VectorIdHash \<rightharpoonup> Entry"
  id_to_hash :: "VectorId \<rightharpoonup> VectorIdHash"
  buffer_count :: "64 word"
  segment_count :: "64 word"
  tombstone_count :: "64 word"
  global_version :: "64 word"

definition LatestByIdMap_init :: LatestByIdMap where
  "LatestByIdMap_init =
     \<lparr>id_map = Map.empty, id_to_hash = Map.empty, buffer_count = 0,
      segment_count = 0, tombstone_count = 0, global_version = 0\<rparr>"

text \<open>\<^verbatim>\<open>updateEntry\<close>: overwrite the location, stamp the version with the value
  \<^verbatim>\<open>fetch_add\<close> returns; the second component is the counter after the increment.\<close>

definition updateEntry :: "Entry \<Rightarrow> VectorLocation \<Rightarrow> 64 word \<Rightarrow> Entry \<times> 64 word" where
  "updateEntry e loc gv = (e\<lparr>location := loc, version := gv\<rparr>, gv + 1)"

text \<open>
  \<^verbatim>\<open>upsert\<close>. The header repeats the opening of the function (lines 110-125) inside
  its own else branch; the model follows the complete copy (lines 126-157), whose
  if-branch is the same text.
\<close>

definition upsert :: "LatestByIdMap \<Rightarrow> VectorId \<Rightarrow> VectorIdHash \<Rightarrow> VectorLocation \<Rightarrow> LatestByIdMap" where
  "upsert m vid h loc =
     (let m1 =
        (case id_map m h of
           Some e \<Rightarrow>
             let ma = (if type (location e) = BUFFER
                       then m\<lparr>buffer_count := buffer_count m - 1\<rparr> else m);
                 mb = (if type (location e) = SEGMENT
                       then ma\<lparr>segment_count := segment_count ma - 1\<rparr> else ma);
                 mc = (if tombstone (location e)
                       then mb\<lparr>tombstone_count := tombstone_count mb - 1\<rparr> else mb);
                 (e', gv') = updateEntry e loc (global_version mc)
             in mc\<lparr>id_map := (id_map mc)(h \<mapsto> e'), global_version := gv'\<rparr>
         | None \<Rightarrow>
             let e = \<lparr>e_id = vid, e_id_hash = h, location = loc,
                      version = global_version m\<rparr>
             in m\<lparr>global_version := global_version m + 1,
                  id_map := (id_map m)(h \<mapsto> e),
                  id_to_hash := (id_to_hash m)(vid \<mapsto> h)\<rparr>);
         m2 = (if type loc = BUFFER
               then m1\<lparr>buffer_count := buffer_count m1 + 1\<rparr> else m1);
         m3 = (if type loc = SEGMENT
               then m2\<lparr>segment_count := segment_count m2 + 1\<rparr> else m2)
     in (if tombstone loc
         then m3\<lparr>tombstone_count := tombstone_count m3 + 1\<rparr> else m3))"

definition markDeleted :: "LatestByIdMap \<Rightarrow> VectorId \<Rightarrow> VectorIdHash \<Rightarrow> Timestamp \<Rightarrow> Epoch \<Rightarrow> LatestByIdMap" where
  "markDeleted m vid h ts ep =
     upsert m vid h
       \<lparr>type = DELETED, segment_id = [], local_id = None, timestamp = ts,
        epoch = ep, tombstone = True\<rparr>"

definition getLatestByHash :: "LatestByIdMap \<Rightarrow> VectorIdHash \<Rightarrow> VectorLocation option" where
  "getLatestByHash m h = (case id_map m h of Some e \<Rightarrow> Some (location e) | None \<Rightarrow> None)"

definition getLatest :: "LatestByIdMap \<Rightarrow> VectorId \<Rightarrow> VectorLocation option" where
  "getLatest m vid = (case id_to_hash m vid of None \<Rightarrow> None | Some h \<Rightarrow> getLatestByHash m h)"

definition exists :: "LatestByIdMap \<Rightarrow> VectorId \<Rightarrow> bool" where
  "exists m vid = (case getLatest m vid of Some loc \<Rightarrow> \<not> tombstone loc | None \<Rightarrow> False)"

definition existsByHash :: "LatestByIdMap \<Rightarrow> VectorIdHash \<Rightarrow> bool" where
  "existsByHash m h = (case getLatestByHash m h of Some loc \<Rightarrow> \<not> tombstone loc | None \<Rightarrow> False)"

text \<open>One iteration of the loop of \<^verbatim>\<open>moveToSegment\<close>, then the loop over the ids.\<close>

definition moveToSegment_step :: "string \<Rightarrow> Epoch \<Rightarrow> LatestByIdMap \<Rightarrow> VectorId \<Rightarrow> LatestByIdMap" where
  "moveToSegment_step sid ep m vid =
     (case id_to_hash m vid of
        None \<Rightarrow> m
      | Some h \<Rightarrow>
          (case id_map m h of
             None \<Rightarrow> m
           | Some e \<Rightarrow>
               let m1 = (if type (location e) = BUFFER
                         then m\<lparr>buffer_count := buffer_count m - 1,
                                segment_count := segment_count m + 1\<rparr>
                         else m);
                   e' = e\<lparr>location := (location e)\<lparr>type := SEGMENT, segment_id := sid, epoch := ep\<rparr>,
                          version := global_version m1\<rparr>
               in m1\<lparr>id_map := (id_map m1)(h \<mapsto> e'),
                     global_version := global_version m1 + 1\<rparr>))"

definition moveToSegment :: "LatestByIdMap \<Rightarrow> VectorId list \<Rightarrow> string \<Rightarrow> Epoch \<Rightarrow> LatestByIdMap" where
  "moveToSegment m ids sid ep = foldl (moveToSegment_step sid ep) m ids"

section \<open>Message buffer (storage/buffer/msg-buf.h)\<close>

text \<open>
  The buffer's \<^verbatim>\<open>size_t\<close> counters are natural numbers. Every addition adds the
  estimated footprint of a message that is resident in memory, or one, so the sums stay
  far below \<open>2 ^ 64\<close>; every subtraction is shown below to take away no more than the
  counter holds on a state the operations can reach (\<open>consistent\<close>), so truncated
  subtraction and the machine's agree there.

  A deque of \<^verbatim>\<open>unique_ptr<BTreeMessage>\<close> is the list of the messages, front first.
  \<open>latest_map\<close> maps a hash to a \<^verbatim>\<open>BTreeMessage*\<close>; the code stores, finds and erases
  these pointers and never reads through one, so the model keeps the message the pointer
  was taken from. The \<^verbatim>\<open>shared_ptr<LatestByIdMap>\<close> is the directory itself, \<open>None\<close> when
  the pointer is null.

  \<open>append_msg\<close>, \<open>evict\<close>, \<open>clear\<close> and the readers below are the operations as one
  thread runs them with no other thread in between. \<^verbatim>\<open>append\<close> takes no lock before its
  cap check, so what several threads do with it is modelled as well: \<open>append_step\<close> cuts
  the function at the points where another thread can run, and \<open>run_schedule\<close>
  interleaves the steps of several calls.
\<close>

record Config =
  max_bytes :: nat
  shard_count :: nat
  flush_threshold_bytes :: nat
  dedupe_enabled :: bool

record Shard =
  messages :: "BTreeMessage list"
  bytes :: nat
  count :: nat
  latest_map :: "VectorIdHash \<rightharpoonup> BTreeMessage"

record MessageBuffer =
  config :: Config
  shards :: "Shard list"
  latest_by_id :: "LatestByIdMap option"
  total_bytes :: nat
  total_messages :: nat
  dedupe_count :: nat

record Stats =
  message_count :: nat
  bytes_used :: nat
  stats_dedupe_count :: nat
  shard_sizes :: "nat list"

definition Shard_init :: Shard where
  "Shard_init = \<lparr>messages = [], bytes = 0, count = 0, latest_map = Map.empty\<rparr>"

definition MessageBuffer_init :: "Config \<Rightarrow> LatestByIdMap option \<Rightarrow> MessageBuffer" where
  "MessageBuffer_init cfg lbi =
     \<lparr>config = cfg, shards = replicate (shard_count cfg) Shard_init, latest_by_id = lbi,
      total_bytes = 0, total_messages = 0, dedupe_count = 0\<rparr>"

text \<open>
  What the constructor establishes and no operation changes: one shard per configured
  shard. With \<open>shard_count = 0\<close> the remainder in \<^verbatim>\<open>getShardIndex\<close> is undefined in C++;
  with at least one shard every index the operations compute is in range.
\<close>

definition well_formed :: "MessageBuffer \<Rightarrow> bool" where
  "well_formed b = (0 < shard_count (config b) \<and> length (shards b) = shard_count (config b))"

definition getShardIndex :: "MessageBuffer \<Rightarrow> VectorIdHash \<Rightarrow> nat" where
  "getShardIndex b hash = unat hash mod shard_count (config b)"

definition sizeof_float :: nat where
  "sizeof_float = 4"

definition sizeof_TagId :: nat where
  "sizeof_TagId = 4"

text \<open>\<^verbatim>\<open>estimateSize\<close>; \<open>sizeof_BTreeMessage\<close> is \<^verbatim>\<open>sizeof(BTreeMessage)\<close>, a constant of
  the platform the code is compiled for, taken as a parameter.\<close>

definition estimateSize :: "nat \<Rightarrow> BTreeMessage \<Rightarrow> nat" where
  "estimateSize sizeof_BTreeMessage msg =
     (let size0 = sizeof_BTreeMessage;
          size1 = size0 + length (vector (entry msg)) * sizeof_float;
          size2 = size1 + length (entry_id (entry msg));
          size3 = size2 + length (tenant (entry msg));
          size4 = size3 + length (namespace_id (entry msg))
      in size4 + length (tags (entry msg)) * sizeof_TagId)"

text \<open>
  \<^verbatim>\<open>waitForSpace\<close> waits on the condition variable for the predicate
  \<^verbatim>\<open>total_bytes_ < max_bytes\<close>. With no other thread running nothing changes the counter
  during the wait, so \<^verbatim>\<open>wait_for\<close> returns what the predicate is on entry: at once when
  it holds, after the timeout when it does not.
\<close>

definition waitForSpace :: "MessageBuffer \<Rightarrow> bool" where
  "waitForSpace b = (total_bytes b < max_bytes (config b))"

text \<open>
  The wait loop of \<^verbatim>\<open>append\<close>: \<open>Some True\<close> when the loop is left by its condition,
  \<open>Some False\<close> when it is left by the \<^verbatim>\<open>return\<close> after a failed wait, \<open>None\<close> when
  it is never left.
\<close>

partial_function (option) append_wait :: "MessageBuffer \<Rightarrow> nat \<Rightarrow> bool option" where
  "append_wait b msg_size =
     (if total_bytes b + msg_size > max_bytes (config b)
      then (if \<not> waitForSpace b then Some False else append_wait b msg_size)
      else Some True)"

text \<open>The rest of \<^verbatim>\<open>append\<close>, from the shard lock on.\<close>

definition append_admit :: "nat \<Rightarrow> MessageBuffer \<Rightarrow> VectorIdHash \<Rightarrow> BTreeMessage \<Rightarrow> MessageBuffer" where
  "append_admit sizeof_BTreeMessage b hash msg =
     (let shard_idx = getShardIndex b hash;
          shard = shards b ! shard_idx;
          msg_size = estimateSize sizeof_BTreeMessage msg;
          b1 = (if dedupe_enabled (config b) \<and> op msg \<noteq> DELETE
                then (case latest_map shard hash of
                        Some old \<Rightarrow> b\<lparr>dedupe_count := dedupe_count b + 1\<rparr>
                      | None \<Rightarrow> b)
                else b);
          shard1 = (if dedupe_enabled (config b)
                    then shard\<lparr>latest_map := (latest_map shard)(hash \<mapsto> msg)\<rparr>
                    else shard);
          shard2 = shard1\<lparr>messages := messages shard1 @ [msg],
                          bytes := bytes shard1 + msg_size,
                          count := count shard1 + 1\<rparr>;
          b2 = b1\<lparr>shards := (shards b1)[shard_idx := shard2],
                  total_bytes := total_bytes b1 + msg_size,
                  total_messages := total_messages b1 + 1\<rparr>
      in (case latest_by_id b2 of
            None \<Rightarrow> b2
          | Some lbi \<Rightarrow>
              b2\<lparr>latest_by_id := Some (upsert lbi (entry_id (entry msg)) hash
                   \<lparr>type = BUFFER, segment_id = [], local_id = None,
                    timestamp = msg_timestamp msg, epoch = msg_epoch msg,
                    tombstone = (op msg = DELETE)\<rparr>)\<rparr>))"

text \<open>
  \<^verbatim>\<open>append\<close> returns \<^verbatim>\<open>void\<close> and throws nothing: a call that returns hands back the
  buffer and nothing else. The result is \<open>None\<close> when the call does not return.
\<close>

definition append_msg :: "nat \<Rightarrow> MessageBuffer \<Rightarrow> VectorIdHash \<Rightarrow> BTreeMessage \<Rightarrow> MessageBuffer option" where
  "append_msg sizeof_BTreeMessage b hash msg =
     (case append_wait b (estimateSize sizeof_BTreeMessage msg) of
        None \<Rightarrow> None
      | Some False \<Rightarrow> Some b
      | Some True \<Rightarrow> Some (append_admit sizeof_BTreeMessage b hash msg))"

text \<open>
  \<^verbatim>\<open>append\<close> again, cut where another thread can run between two of its steps. The
  loop condition (l.123) reads the atomic counter and holds no lock; the wait (l.124)
  ends with the value its predicate has at that moment, \<^verbatim>\<open>false\<close> being the timeout;
  the rest (l.131-165) runs under the shard's mutex and adds to the atomic total once,
  and is one step. A call is its program point with its two arguments.
\<close>

datatype AppendPc = AtCheck | AtWait | AtAdmit | Returned

record AppendCall =
  pc :: AppendPc
  call_hash :: VectorIdHash
  call_msg :: BTreeMessage

definition append_step :: "nat \<Rightarrow> MessageBuffer \<Rightarrow> AppendCall \<Rightarrow> MessageBuffer \<times> AppendCall" where
  "append_step sizeof_BTreeMessage b c =
     (case pc c of
        AtCheck \<Rightarrow>
          (if total_bytes b + estimateSize sizeof_BTreeMessage (call_msg c) > max_bytes (config b)
           then (b, c\<lparr>pc := AtWait\<rparr>) else (b, c\<lparr>pc := AtAdmit\<rparr>))
      | AtWait \<Rightarrow>
          (if \<not> waitForSpace b then (b, c\<lparr>pc := Returned\<rparr>) else (b, c\<lparr>pc := AtCheck\<rparr>))
      | AtAdmit \<Rightarrow>
          (append_admit sizeof_BTreeMessage b (call_hash c) (call_msg c), c\<lparr>pc := Returned\<rparr>)
      | Returned \<Rightarrow> (b, c))"

text \<open>A schedule names, step by step, the call that runs next.\<close>

fun run_schedule :: "nat \<Rightarrow> MessageBuffer \<times> AppendCall list \<Rightarrow> nat list
    \<Rightarrow> MessageBuffer \<times> AppendCall list" where
  "run_schedule so (b, calls) [] = (b, calls)"
| "run_schedule so (b, calls) (i # rest) =
     (if i < length calls
      then (case append_step so b (calls ! i) of
              (b', c') \<Rightarrow> run_schedule so (b', calls[i := c']) rest)
      else run_schedule so (b, calls) rest)"

text \<open>
  \<^verbatim>\<open>sliceForLeaf\<close>: the inner loop over \<open>j\<close>, then the outer loop over the shards.
  Every iteration of the inner loop copies \<^verbatim>\<open>messages.front()\<close> and removes nothing.
  \<^verbatim>\<open>result.reserve(max_batch)\<close> comes first: it throws \<^verbatim>\<open>std::length_error\<close> when
  \<open>max_batch\<close> exceeds \<^verbatim>\<open>vector<BTreeMessage>::max_size()\<close>, a constant of the platform
  taken as the parameter \<open>vector_max_size\<close>; running out of memory is outside the model.
\<close>

fun slice_take :: "nat \<Rightarrow> Shard \<Rightarrow> BTreeMessage list \<Rightarrow> BTreeMessage list" where
  "slice_take 0 shard result = result"
| "slice_take (Suc j) shard result =
     slice_take j shard
       (case messages shard of [] \<Rightarrow> result | front # rest \<Rightarrow> result @ [front])"

function slice_shards :: "MessageBuffer \<Rightarrow> nat \<Rightarrow> nat \<Rightarrow> BTreeMessage list \<Rightarrow> BTreeMessage list" where
  "slice_shards b max_batch i result =
     (if i < shard_count (config b) \<and> length result < max_batch
      then (let shard = shards b ! i;
                to_take = min (max_batch - length result) (length (messages shard))
            in slice_shards b max_batch (Suc i) (slice_take to_take shard result))
      else result)"
  by pat_completeness auto
termination
  by (relation "measure (\<lambda>(b, max_batch, i, result). shard_count (config b) - i)") auto

declare slice_shards.simps [simp del]

datatype slice_error = LengthError

definition sliceForLeaf :: "nat \<Rightarrow> MessageBuffer \<Rightarrow> nat \<Rightarrow> nat \<Rightarrow> slice_error + BTreeMessage list" where
  "sliceForLeaf vector_max_size b leaf_id max_batch =
     (if max_batch > vector_max_size then Inl LengthError
      else Inr (slice_shards b max_batch 0 []))"

text \<open>\<^verbatim>\<open>evict\<close>: one iteration of the loop over the flushed messages, then the loop.\<close>

definition evict_step :: "nat \<Rightarrow> MessageBuffer \<Rightarrow> BTreeMessage \<Rightarrow> MessageBuffer" where
  "evict_step sizeof_BTreeMessage b msg =
     (let shard_idx = getShardIndex b (id_hash (entry msg));
          shard = shards b ! shard_idx
      in (case messages shard of
            [] \<Rightarrow> b
          | front # rest \<Rightarrow>
              let msg_size = estimateSize sizeof_BTreeMessage front;
                  shard1 = (if dedupe_enabled (config b)
                            then shard\<lparr>latest_map := (latest_map shard)(id_hash (entry msg) := None)\<rparr>
                            else shard);
                  shard2 = shard1\<lparr>messages := rest,
                                  bytes := bytes shard1 - msg_size,
                                  count := count shard1 - 1\<rparr>
              in b\<lparr>shards := (shards b)[shard_idx := shard2],
                   total_bytes := total_bytes b - msg_size,
                   total_messages := total_messages b - 1\<rparr>))"

definition evict :: "nat \<Rightarrow> MessageBuffer \<Rightarrow> BTreeMessage list \<Rightarrow> MessageBuffer" where
  "evict sizeof_BTreeMessage b flushed = foldl (evict_step sizeof_BTreeMessage) b flushed"

text \<open>\<^verbatim>\<open>scanForQuery\<close>: the tag loop, the loop over one shard's messages (the counter
  \<open>scanned\<close> lives across shards; each \<^verbatim>\<open>continue\<close> leaves \<open>results\<close> as it is), and the
  loop over the shards.\<close>

fun has_tag :: "TagId list \<Rightarrow> TagSet \<Rightarrow> bool" where
  "has_tag [] entry_tags = False"
| "has_tag (tag # rest) entry_tags =
     (if tag \<in> set entry_tags then True else has_tag rest entry_tags)"

fun scan_messages :: "TenantId \<Rightarrow> NamespaceId \<Rightarrow> TagId list \<Rightarrow> nat \<Rightarrow> BTreeMessage list
    \<Rightarrow> VectorEntry list \<times> nat \<Rightarrow> VectorEntry list \<times> nat" where
  "scan_messages tn ns tgs max_scan [] (results, scanned) = (results, scanned)"
| "scan_messages tn ns tgs max_scan (msg # rest) (results, scanned) =
     (if scanned \<ge> max_scan then (results, scanned)
      else scan_messages tn ns tgs max_scan rest
             (if op msg = DELETE then results
              else if tn \<noteq> [] \<and> tenant (entry msg) \<noteq> tn then results
              else if ns \<noteq> [] \<and> namespace_id (entry msg) \<noteq> ns then results
              else if tgs \<noteq> [] \<and> \<not> has_tag tgs (tags (entry msg)) then results
              else results @ [entry msg],
              scanned + 1))"

definition scanForQuery :: "MessageBuffer \<Rightarrow> Vector \<Rightarrow> TenantId \<Rightarrow> NamespaceId \<Rightarrow> TagId list \<Rightarrow> nat
    \<Rightarrow> VectorEntry list" where
  "scanForQuery b query tn ns tgs max_scan =
     fst (foldl (\<lambda>acc shard. scan_messages tn ns tgs max_scan (messages shard) acc)
            ([], 0) (shards b))"

definition getStats :: "MessageBuffer \<Rightarrow> Stats" where
  "getStats b =
     \<lparr>message_count = total_messages b, bytes_used = total_bytes b,
      stats_dedupe_count = dedupe_count b, shard_sizes = map count (shards b)\<rparr>"

definition clear :: "MessageBuffer \<Rightarrow> MessageBuffer" where
  "clear b =
     b\<lparr>shards := map (\<lambda>shard. shard\<lparr>messages := [], latest_map := Map.empty,
                                    bytes := 0, count := 0\<rparr>) (shards b),
       total_bytes := 0, total_messages := 0, dedupe_count := 0\<rparr>"

section \<open>Runs and example states\<close>

text \<open>A sequence of \<^verbatim>\<open>upsert\<close> calls, each given as (id, id_hash, location).\<close>

definition upserts :: "LatestByIdMap \<Rightarrow> (VectorId \<times> VectorIdHash \<times> VectorLocation) list \<Rightarrow> LatestByIdMap" where
  "upserts m us = foldl (\<lambda>m' (vid, h, loc). upsert m' vid h loc) m us"

text \<open>The location \<^verbatim>\<open>moveToSegment\<close> writes over a location.\<close>

definition to_segment :: "string \<Rightarrow> Epoch \<Rightarrow> VectorLocation \<Rightarrow> VectorLocation" where
  "to_segment sid ep loc = loc\<lparr>type := SEGMENT, segment_id := sid, epoch := ep\<rparr>"

definition loc_buffer :: "Epoch \<Rightarrow> VectorLocation" where
  "loc_buffer ep =
     \<lparr>type = BUFFER, segment_id = [], local_id = None, timestamp = 0, epoch = ep,
      tombstone = False\<rparr>"

text \<open>A directory that holds the id \<open>''v1''\<close> (hash 5) in the buffer at epoch 9.\<close>

definition lbi_v1 :: LatestByIdMap where
  "lbi_v1 = upsert LatestByIdMap_init ''v1'' 5 (loc_buffer 9)"

text \<open>An upsert message for \<open>''v1''\<close>: a vector of dimension 4, one tag.\<close>

definition entry_v1 :: VectorEntry where
  "entry_v1 =
     \<lparr>entry_id = ''v1'', id_hash = 5, vector = [0, 0, 0, 0], tenant = ''acme'',
      tenant_hash = 1, namespace_id = ''docs'', namespace_hash = 2, tags = [7],
      created_at = 0, updated_at = 0, centroid_id = 0, deleted = False\<rparr>"

definition msg_v1 :: "Epoch \<Rightarrow> BTreeMessage" where
  "msg_v1 ep = \<lparr>op = UPSERT, entry = entry_v1, msg_epoch = ep, msg_timestamp = 0\<rparr>"

text \<open>The messages of all shards, shard by shard, each queue front first.\<close>

definition queued :: "MessageBuffer \<Rightarrow> BTreeMessage list" where
  "queued b = concat (map messages (shards b))"


text \<open>
  The counters agree with the queues: per shard, \<open>bytes\<close> is the sum of the estimated
  sizes and \<open>count\<close> the number of the queued messages; the totals are the sums over
  the shards.
\<close>

definition consistent :: "nat \<Rightarrow> MessageBuffer \<Rightarrow> bool" where
  "consistent sizeof_BTreeMessage b =
     ((\<forall>shard \<in> set (shards b).
         bytes shard = sum_list (map (estimateSize sizeof_BTreeMessage) (messages shard))
         \<and> count shard = length (messages shard))
      \<and> total_bytes b = sum_list (map bytes (shards b))
      \<and> total_messages b = sum_list (map count (shards b)))"

definition buffer_inv :: "nat \<Rightarrow> MessageBuffer \<Rightarrow> bool" where
  "buffer_inv so b =
     (well_formed b \<and> consistent so b \<and> total_bytes b \<le> max_bytes (config b))"

text \<open>A sequence of buffer operations, run one after the other; the run has no result
  when one of its appends does not return.\<close>

datatype BufferOp = Append VectorIdHash BTreeMessage | Evict "BTreeMessage list" | Clear

fun buffer_op :: "nat \<Rightarrow> MessageBuffer \<Rightarrow> BufferOp \<Rightarrow> MessageBuffer option" where
  "buffer_op so b (Append hash msg) = append_msg so b hash msg"
| "buffer_op so b (Evict flushed) = Some (evict so b flushed)"
| "buffer_op so b Clear = Some (clear b)"

fun run_ops :: "nat \<Rightarrow> MessageBuffer \<Rightarrow> BufferOp list \<Rightarrow> MessageBuffer option" where
  "run_ops so b [] = Some b"
| "run_ops so b (x # xs) =
     (case buffer_op so b x of None \<Rightarrow> None | Some b' \<Rightarrow> run_ops so b' xs)"

text \<open>
  Example buffers with four shards (hash 5 falls into shard 1) and 216 for
  \<^verbatim>\<open>sizeof(BTreeMessage)\<close>, so that each message \<open>msg_v1 ep\<close> is estimated at 246 bytes:
  \<open>buf0\<close> to \<open>buf3\<close> have room for four messages and hold none to three appends of
  \<open>''v1''\<close>; \<open>tight0\<close> to \<open>tight2\<close> have room for exactly two.
\<close>

definition cfg_small :: Config where
  "cfg_small = \<lparr>max_bytes = 1000, shard_count = 4, flush_threshold_bytes = 128, dedupe_enabled = True\<rparr>"

definition buf0 :: MessageBuffer where
  "buf0 = MessageBuffer_init cfg_small (Some LatestByIdMap_init)"

definition buf1 :: MessageBuffer where
  "buf1 = append_admit 216 buf0 5 (msg_v1 1)"

definition buf2 :: MessageBuffer where
  "buf2 = append_admit 216 buf1 5 (msg_v1 2)"

definition buf3 :: MessageBuffer where
  "buf3 = append_admit 216 buf2 5 (msg_v1 3)"

definition cfg_tight :: Config where
  "cfg_tight = \<lparr>max_bytes = 492, shard_count = 4, flush_threshold_bytes = 128, dedupe_enabled = True\<rparr>"

definition tight0 :: MessageBuffer where
  "tight0 = MessageBuffer_init cfg_tight (Some LatestByIdMap_init)"

definition tight1 :: MessageBuffer where
  "tight1 = append_admit 216 tight0 5 (msg_v1 1)"

definition tight2 :: MessageBuffer where
  "tight2 = append_admit 216 tight1 5 (msg_v1 2)"

text \<open>A second id, \<open>''v2''\<close> (hash 6, shard 2), appended to the buffer that holds one
  message of \<open>''v1''\<close>.\<close>

definition entry_v2 :: VectorEntry where
  "entry_v2 =
     \<lparr>entry_id = ''v2'', id_hash = 6, vector = [0, 0, 0, 0], tenant = ''acme'',
      tenant_hash = 1, namespace_id = ''docs'', namespace_hash = 2, tags = [7],
      created_at = 0, updated_at = 0, centroid_id = 0, deleted = False\<rparr>"

definition msg_v2 :: BTreeMessage where
  "msg_v2 = \<lparr>op = UPSERT, entry = entry_v2, msg_epoch = 2, msg_timestamp = 0\<rparr>"

definition buf12 :: MessageBuffer where
  "buf12 = append_admit 216 buf1 6 msg_v2"

text \<open>Every queued message sits in the shard of its own id_hash: what the queues look
  like when every append was called with the hash of the message's id.\<close>

definition routed :: "MessageBuffer \<Rightarrow> bool" where
  "routed b =
     list_all (\<lambda>j. list_all (\<lambda>msg. getShardIndex b (id_hash (entry msg)) = j)
                       (messages (shards b ! j)))
       [0..<length (shards b)]"

text \<open>\<^verbatim>\<open>max_size()\<close> of a vector of 216-byte elements with a 64-bit \<^verbatim>\<open>ptrdiff_t\<close>.\<close>

definition max_size_216 :: nat where
  "max_size_216 = 42700796466920258"

text \<open>\<open>buf21\<close>: \<open>''v2''\<close> is queued (shard 2), then \<open>''v1''\<close> is appended (shard 1).
  \<open>buf11\<close>: the same message of \<open>''v1''\<close> appended twice.\<close>

definition buf_v2 :: MessageBuffer where
  "buf_v2 = append_admit 216 buf0 6 msg_v2"

definition buf21 :: MessageBuffer where
  "buf21 = append_admit 216 buf_v2 5 (msg_v1 1)"

definition buf11 :: MessageBuffer where
  "buf11 = append_admit 216 buf1 5 (msg_v1 1)"

text \<open>A buffer with room for exactly one message, and two calls of \<^verbatim>\<open>append\<close> about to
  start on it.\<close>

definition cfg_cap :: Config where
  "cfg_cap = \<lparr>max_bytes = 246, shard_count = 4, flush_threshold_bytes = 128, dedupe_enabled = True\<rparr>"

definition cap0 :: MessageBuffer where
  "cap0 = MessageBuffer_init cfg_cap (Some LatestByIdMap_init)"

definition call_a :: AppendCall where
  "call_a = \<lparr>pc = AtCheck, call_hash = 5, call_msg = msg_v1 1\<rparr>"

definition call_b :: AppendCall where
  "call_b = \<lparr>pc = AtCheck, call_hash = 6, call_msg = msg_v2\<rparr>"

section \<open>Latest-By-ID: lemmas\<close>

lemma getLatestByHash_upsert_same: "getLatestByHash (upsert m vid h loc) h = Some loc"
  by (simp add: getLatestByHash_def upsert_def updateEntry_def Let_def split: option.split)

lemma getLatestByHash_upsert_other:
  "h' \<noteq> h \<Longrightarrow> getLatestByHash (upsert m vid h' loc) h = getLatestByHash m h"
  by (simp add: getLatestByHash_def upsert_def updateEntry_def Let_def split: option.split)

lemma upserts_snoc: "upserts m (us @ [(vid, h, loc)]) = upsert (upserts m us) vid h loc"
  by (simp add: upserts_def)

lemma id_to_hash_moveToSegment_step:
  "id_to_hash (moveToSegment_step sid ep m vid) = id_to_hash m"
  by (simp add: moveToSegment_step_def Let_def split: option.split)

lemma getLatestByHash_moveToSegment_step:
  "getLatestByHash (moveToSegment_step sid ep m vid) h =
     (if id_to_hash m vid = Some h then map_option (to_segment sid ep) (getLatestByHash m h)
      else getLatestByHash m h)"
  by (auto simp: moveToSegment_step_def getLatestByHash_def to_segment_def Let_def
      split: option.split)

lemma to_segment_idem: "to_segment sid ep (to_segment sid ep loc) = to_segment sid ep loc"
  by (simp add: to_segment_def)

lemma id_to_hash_moveToSegment: "id_to_hash (moveToSegment m ids sid ep) = id_to_hash m"
  unfolding moveToSegment_def
  by (induction ids arbitrary: m) (simp_all add: id_to_hash_moveToSegment_step)

text \<open>
  What \<^verbatim>\<open>moveToSegment\<close> does to every location, whatever its type and epoch: the
  entry of each listed id the directory knows is rewritten, all others are kept.
\<close>

lemma getLatestByHash_moveToSegment:
  "getLatestByHash (moveToSegment m ids sid ep) h =
     (if \<exists>vid \<in> set ids. id_to_hash m vid = Some h
      then map_option (to_segment sid ep) (getLatestByHash m h)
      else getLatestByHash m h)"
  unfolding moveToSegment_def
proof (induction ids arbitrary: m)
  case Nil
  show ?case by simp
next
  case (Cons vid ids)
  show ?case
    by (simp add: Cons.IH id_to_hash_moveToSegment_step getLatestByHash_moveToSegment_step
        option.map_comp comp_def to_segment_idem)
qed

lemma moveToSegment_step_unknown:
  "getLatest m vid = None \<Longrightarrow> moveToSegment_step sid ep m vid = m"
  by (auto simp: moveToSegment_step_def getLatest_def getLatestByHash_def split: option.splits)

lemma moveToSegment_unknown:
  "\<forall>vid \<in> set ids. getLatest m vid = None \<Longrightarrow> moveToSegment m ids sid ep = m"
  unfolding moveToSegment_def
  by (induction ids) (simp_all add: moveToSegment_step_unknown)

lemma getLatest_lbi_v1: "getLatest lbi_v1 ''v1'' = Some (loc_buffer 9)"
  by (simp add: lbi_v1_def getLatest_def getLatestByHash_def upsert_def LatestByIdMap_init_def
      Let_def)

lemma getLatest_lbi_v1_other: "getLatest lbi_v1 ''v2'' = None"
  by (simp add: lbi_v1_def getLatest_def getLatestByHash_def upsert_def LatestByIdMap_init_def
      Let_def)

section \<open>Latest-By-ID: the claims\<close>

text \<open>
  C1, as stated, fails: \<^verbatim>\<open>upsert\<close> compares no epochs. With \<open>''v1''\<close> stored at epoch 9, an
  upsert at epoch 3 replaces the stored location.
\<close>

theorem upsert_lower_epoch_counterexample:
  "getLatestByHash lbi_v1 5 = Some (loc_buffer 9)
   \<and> epoch (loc_buffer 3) < epoch (loc_buffer 9)
   \<and> getLatestByHash (upsert lbi_v1 ''v1'' 5 (loc_buffer 3)) 5 = Some (loc_buffer 3)
   \<and> loc_buffer 3 \<noteq> loc_buffer 9"
  by (simp add: lbi_v1_def getLatestByHash_upsert_same loc_buffer_def)

text \<open>
  C1, amended: upserts are last-call-wins whatever the epochs. After any sequence of
  upserts, the location held under an id_hash is the location of the last upsert of the
  sequence made under that id_hash, and what was held before when there is none.
\<close>

theorem upsert_last_call_wins:
  "getLatestByHash (upserts m us) h =
     (let hs = filter (\<lambda>(vid, h', loc). h' = h) us
      in if hs = [] then getLatestByHash m h else Some (snd (snd (last hs))))"
proof (induction us rule: rev_induct)
  case Nil
  show ?case by (simp add: upserts_def)
next
  case (snoc u us)
  obtain vid h' loc where u: "u = (vid, h', loc)" by (cases u)
  show ?case
  proof (cases "h' = h")
    case True
    then show ?thesis
      by (simp add: u upserts_snoc getLatestByHash_upsert_same)
  next
    case False
    then show ?thesis
      using snoc.IH by (simp add: u upserts_snoc getLatestByHash_upsert_other)
  qed
qed

theorem upsert_last_call_wins_witness:
  "getLatestByHash
     (upserts LatestByIdMap_init
        [(''v1'', 5, loc_buffer 9), (''v2'', 6, loc_buffer 10), (''v1'', 5, loc_buffer 3)]) 5
     = Some (loc_buffer 3)"
  using upsert_last_call_wins [of LatestByIdMap_init
      "[(''v1'', 5, loc_buffer 9), (''v2'', 6, loc_buffer 10), (''v1'', 5, loc_buffer 3)]" 5]
  by simp

text \<open>
  C2, as stated, fails: \<^verbatim>\<open>moveToSegment\<close> compares no epochs. \<open>''v1''\<close> is in the buffer at
  epoch 9; a flush at epoch 5 still moves it to the segment and lowers its epoch to 5.
\<close>

theorem moveToSegment_epoch_gate_counterexample:
  "getLatest lbi_v1 ''v1'' = Some (loc_buffer 9)
   \<and> type (loc_buffer 9) = BUFFER \<and> \<not> epoch (loc_buffer 9) \<le> 5
   \<and> getLatest (moveToSegment lbi_v1 [''v1''] ''seg-1'' 5) ''v1''
       = Some \<lparr>type = SEGMENT, segment_id = ''seg-1'', local_id = None, timestamp = 0,
               epoch = 5, tombstone = False\<rparr>"
  by (simp add: lbi_v1_def getLatest_def getLatestByHash_def upsert_def LatestByIdMap_init_def
      Let_def moveToSegment_def moveToSegment_step_def loc_buffer_def updateEntry_def)

text \<open>
  C2, amended: \<^verbatim>\<open>moveToSegment\<close> has no epoch gate. For every id of the list whose
  current location is Buffer, the location becomes Segment with the new segment_id and
  epoch, whatever its epoch was (timestamp, local id and tombstone flag are kept); when
  the directory holds none of the listed ids the call changes nothing.
\<close>

theorem moveToSegment_moves_buffer_entries:
  "(vid \<in> set ids \<and> getLatest m vid = Some loc \<and> type loc = BUFFER \<longrightarrow>
      getLatest (moveToSegment m ids sid ep) vid
        = Some (loc\<lparr>type := SEGMENT, segment_id := sid, epoch := ep\<rparr>))
   \<and> ((\<forall>v \<in> set ids. getLatest m v = None) \<longrightarrow> moveToSegment m ids sid ep = m)"
proof (intro conjI impI)
  assume a: "vid \<in> set ids \<and> getLatest m vid = Some loc \<and> type loc = BUFFER"
  then obtain h where h: "id_to_hash m vid = Some h" "getLatestByHash m h = Some loc"
    by (auto simp: getLatest_def split: option.splits)
  have "getLatestByHash (moveToSegment m ids sid ep) h = Some (to_segment sid ep loc)"
    using a h by (auto simp: getLatestByHash_moveToSegment)
  then show "getLatest (moveToSegment m ids sid ep) vid
        = Some (loc\<lparr>type := SEGMENT, segment_id := sid, epoch := ep\<rparr>)"
    using h by (simp add: getLatest_def id_to_hash_moveToSegment to_segment_def)
next
  assume "\<forall>v \<in> set ids. getLatest m v = None"
  then show "moveToSegment m ids sid ep = m" by (rule moveToSegment_unknown)
qed

theorem moveToSegment_moves_buffer_entries_witness:
  "''v1'' \<in> set [''v1'', ''v3''] \<and> getLatest lbi_v1 ''v1'' = Some (loc_buffer 9)
   \<and> type (loc_buffer 9) = BUFFER
   \<and> getLatest (moveToSegment lbi_v1 [''v1'', ''v3''] ''seg-1'' 5) ''v1''
        = Some ((loc_buffer 9)\<lparr>type := SEGMENT, segment_id := ''seg-1'', epoch := 5\<rparr>)
   \<and> getLatest lbi_v1 ''v2'' = None
   \<and> moveToSegment lbi_v1 [''v2''] ''seg-1'' 5 = lbi_v1"
  using moveToSegment_moves_buffer_entries
      [of "''v1''" "[''v1'', ''v3'']" lbi_v1 "loc_buffer 9" "''seg-1''" 5]
    moveToSegment_moves_buffer_entries
      [of "''v1''" "[''v2'']" lbi_v1 "loc_buffer 9" "''seg-1''" 5]
    getLatest_lbi_v1 getLatest_lbi_v1_other
  by (simp add: loc_buffer_def)

text \<open>
  C8: \<^verbatim>\<open>exists(id)\<close> is true exactly when the directory holds a location for the id (the
  id maps to a hash and the hash to an entry) and that location is not tombstoned; it
  is false for an id with no entry and for an id whose location is tombstoned.
\<close>

theorem exists_iff_present_not_tombstoned:
  "(exists m vid \<longleftrightarrow> (\<exists>loc. getLatest m vid = Some loc \<and> \<not> tombstone loc))
   \<and> (exists m vid \<longleftrightarrow>
        (\<exists>h e. id_to_hash m vid = Some h \<and> id_map m h = Some e \<and> \<not> tombstone (location e)))
   \<and> (getLatest m vid = None \<longrightarrow> \<not> exists m vid)
   \<and> (\<forall>loc. getLatest m vid = Some loc \<and> tombstone loc \<longrightarrow> \<not> exists m vid)"
  by (auto simp: exists_def getLatest_def getLatestByHash_def split: option.splits)

theorem exists_iff_present_not_tombstoned_witness:
  "getLatest lbi_v1 ''v1'' = Some (loc_buffer 9) \<and> \<not> tombstone (loc_buffer 9)
   \<and> exists lbi_v1 ''v1''
   \<and> getLatest lbi_v1 ''v2'' = None \<and> \<not> exists lbi_v1 ''v2''
   \<and> getLatest (markDeleted lbi_v1 ''v1'' 5 0 11) ''v1''
       = Some \<lparr>type = DELETED, segment_id = [], local_id = None, timestamp = 0,
               epoch = 11, tombstone = True\<rparr>
   \<and> \<not> exists (markDeleted lbi_v1 ''v1'' 5 0 11) ''v1''"
proof -
  have d: "getLatest (markDeleted lbi_v1 ''v1'' 5 0 11) ''v1''
       = Some \<lparr>type = DELETED, segment_id = [], local_id = None, timestamp = 0,
               epoch = 11, tombstone = True\<rparr>"
    by (simp add: markDeleted_def lbi_v1_def getLatest_def getLatestByHash_def upsert_def
        LatestByIdMap_init_def updateEntry_def Let_def)
  show ?thesis
    using exists_iff_present_not_tombstoned [of lbi_v1 "''v1''"]
      exists_iff_present_not_tombstoned [of lbi_v1 "''v2''"]
      exists_iff_present_not_tombstoned [of "markDeleted lbi_v1 ''v1'' 5 0 11" "''v1''"]
      getLatest_lbi_v1 getLatest_lbi_v1_other d
    by (simp add: loc_buffer_def)
qed

section \<open>Message buffer: lemmas\<close>

text \<open>In the lemmas and theorems, \<open>so\<close> stands for the parameter \<open>sizeof_BTreeMessage\<close>.\<close>

subsection \<open>The wait loop of append\<close>

lemma append_wait_fits:
  "total_bytes b + msg_size \<le> max_bytes (config b) \<Longrightarrow> append_wait b msg_size = Some True"
  by (subst append_wait.simps) simp

lemma append_wait_full:
  "max_bytes (config b) < total_bytes b + msg_size \<Longrightarrow> max_bytes (config b) \<le> total_bytes b \<Longrightarrow>
   append_wait b msg_size = Some False"
  by (subst append_wait.simps) (simp add: waitForSpace_def)

lemma append_wait_Some_D:
  assumes "append_wait b msg_size = Some r"
  shows "\<not> (total_bytes b < max_bytes (config b) \<and> max_bytes (config b) < total_bytes b + msg_size)"
  using assms
  by (rule append_wait.raw_induct
      [where P = "\<lambda>b msg_size r. \<not> (total_bytes b < max_bytes (config b)
          \<and> max_bytes (config b) < total_bytes b + msg_size)", rotated])
    (auto simp: waitForSpace_def split: if_splits)

lemma append_wait_spin:
  "total_bytes b < max_bytes (config b) \<Longrightarrow> max_bytes (config b) < total_bytes b + msg_size \<Longrightarrow>
   append_wait b msg_size = None"
  using append_wait_Some_D [of b msg_size] by (cases "append_wait b msg_size") auto

lemma append_fits:
  "total_bytes b + estimateSize so msg \<le> max_bytes (config b) \<Longrightarrow>
   append_msg so b hash msg = Some (append_admit so b hash msg)"
  by (simp add: append_msg_def append_wait_fits)

lemma append_full:
  "max_bytes (config b) < total_bytes b + estimateSize so msg \<Longrightarrow>
   max_bytes (config b) \<le> total_bytes b \<Longrightarrow> append_msg so b hash msg = Some b"
  by (simp add: append_msg_def append_wait_full)

lemma append_spin:
  "total_bytes b < max_bytes (config b) \<Longrightarrow>
   max_bytes (config b) < total_bytes b + estimateSize so msg \<Longrightarrow> append_msg so b hash msg = None"
  by (simp add: append_msg_def append_wait_spin)

lemma append_cases:
  "append_msg so b hash msg = Some b' \<Longrightarrow>
   (total_bytes b + estimateSize so msg \<le> max_bytes (config b) \<and> b' = append_admit so b hash msg)
   \<or> (max_bytes (config b) < total_bytes b + estimateSize so msg \<and> b' = b)"
proof -
  assume a: "append_msg so b hash msg = Some b'"
  show ?thesis
  proof (cases "total_bytes b + estimateSize so msg \<le> max_bytes (config b)")
    case True
    with a show ?thesis by (simp add: append_fits)
  next
    case False
    show ?thesis
    proof (cases "max_bytes (config b) \<le> total_bytes b")
      case True
      with False a show ?thesis by (simp add: append_full)
    next
      case f2: False
      with False a show ?thesis by (simp add: append_spin)
    qed
  qed
qed

text \<open>One call scheduled alone does what \<open>append_msg\<close> does, in two steps.\<close>

lemma append_msg_run_alone:
  assumes "append_msg so b hash msg = Some b'"
  shows "run_schedule so (b, [\<lparr>pc = AtCheck, call_hash = hash, call_msg = msg\<rparr>]) [0, 0]
     = (b', [\<lparr>pc = Returned, call_hash = hash, call_msg = msg\<rparr>])"
proof -
  from append_cases [OF assms] show ?thesis
  proof
    assume "total_bytes b + estimateSize so msg \<le> max_bytes (config b) \<and> b' = append_admit so b hash msg"
    then show ?thesis by (simp add: append_step_def)
  next
    assume a: "max_bytes (config b) < total_bytes b + estimateSize so msg \<and> b' = b"
    have "\<not> total_bytes b < max_bytes (config b)"
      using append_spin [of b so msg hash] a assms by auto
    then show ?thesis using a by (simp add: append_step_def waitForSpace_def)
  qed
qed

subsection \<open>What append and evict write\<close>

lemma getShardIndex_less: "well_formed b \<Longrightarrow> getShardIndex b hash < length (shards b)"
  by (simp add: well_formed_def getShardIndex_def)

lemma sum_list_map_update:
  "i < length xs \<Longrightarrow> sum_list (map f (xs[i := x])) + f (xs ! i) = sum_list (map f xs) + (f x :: nat)"
  by (induction xs arbitrary: i) (auto simp: nth_Cons split: nat.split)

lemma append_admit_fields:
  "config (append_admit so b hash msg) = config b"
  "total_bytes (append_admit so b hash msg) = total_bytes b + estimateSize so msg"
  "total_messages (append_admit so b hash msg) = total_messages b + 1"
  by (simp_all add: append_admit_def Let_def split: option.split)

lemma shards_append_admit_eq:
  "shards (append_admit so b hash msg) =
     (shards b)[getShardIndex b hash := (shards b ! getShardIndex b hash)
       \<lparr>latest_map := (if dedupe_enabled (config b)
                       then (latest_map (shards b ! getShardIndex b hash))(hash \<mapsto> msg)
                       else latest_map (shards b ! getShardIndex b hash)),
        messages := messages (shards b ! getShardIndex b hash) @ [msg],
        bytes := bytes (shards b ! getShardIndex b hash) + estimateSize so msg,
        count := count (shards b ! getShardIndex b hash) + 1\<rparr>]"
  by (simp add: append_admit_def Let_def split: option.split)

lemma shards_append_admit:
  "\<exists>shard'. shards (append_admit so b hash msg) = (shards b)[getShardIndex b hash := shard']
     \<and> messages shard' = messages (shards b ! getShardIndex b hash) @ [msg]
     \<and> bytes shard' = bytes (shards b ! getShardIndex b hash) + estimateSize so msg
     \<and> count shard' = count (shards b ! getShardIndex b hash) + 1
     \<and> latest_map shard' =
         (if dedupe_enabled (config b) then (latest_map (shards b ! getShardIndex b hash))(hash \<mapsto> msg)
          else latest_map (shards b ! getShardIndex b hash))"
  by (rule exI, rule conjI, rule shards_append_admit_eq) simp

lemma evict_step_empty:
  "messages (shards b ! getShardIndex b (id_hash (entry msg))) = [] \<Longrightarrow> evict_step so b msg = b"
  by (simp add: evict_step_def Let_def)

lemma evict_step_fields:
  "config (evict_step so b msg) = config b"
  "latest_by_id (evict_step so b msg) = latest_by_id b"
  "dedupe_count (evict_step so b msg) = dedupe_count b"
  by (simp_all add: evict_step_def Let_def split: list.split)

lemma shards_evict_step_eq:
  "messages (shards b ! getShardIndex b (id_hash (entry msg))) = front # rest \<Longrightarrow>
   shards (evict_step so b msg) =
     (shards b)[getShardIndex b (id_hash (entry msg)) := (shards b ! getShardIndex b (id_hash (entry msg)))
       \<lparr>latest_map := (if dedupe_enabled (config b)
                       then (latest_map (shards b ! getShardIndex b (id_hash (entry msg))))(id_hash (entry msg) := None)
                       else latest_map (shards b ! getShardIndex b (id_hash (entry msg)))),
        messages := rest,
        bytes := bytes (shards b ! getShardIndex b (id_hash (entry msg))) - estimateSize so front,
        count := count (shards b ! getShardIndex b (id_hash (entry msg))) - 1\<rparr>]"
  by (simp add: evict_step_def Let_def)

lemma evict_step_front:
  assumes "messages (shards b ! getShardIndex b (id_hash (entry msg))) = front # rest"
  shows "total_bytes (evict_step so b msg) = total_bytes b - estimateSize so front"
    and "total_messages (evict_step so b msg) = total_messages b - 1"
    and "\<exists>shard'. shards (evict_step so b msg) = (shards b)[getShardIndex b (id_hash (entry msg)) := shard']
     \<and> messages shard' = rest
     \<and> bytes shard' = bytes (shards b ! getShardIndex b (id_hash (entry msg))) - estimateSize so front
     \<and> count shard' = count (shards b ! getShardIndex b (id_hash (entry msg))) - 1"
proof -
  show "total_bytes (evict_step so b msg) = total_bytes b - estimateSize so front"
    using assms by (simp add: evict_step_def Let_def)
  show "total_messages (evict_step so b msg) = total_messages b - 1"
    using assms by (simp add: evict_step_def Let_def)
  show "\<exists>shard'. shards (evict_step so b msg) = (shards b)[getShardIndex b (id_hash (entry msg)) := shard']
     \<and> messages shard' = rest
     \<and> bytes shard' = bytes (shards b ! getShardIndex b (id_hash (entry msg))) - estimateSize so front
     \<and> count shard' = count (shards b ! getShardIndex b (id_hash (entry msg))) - 1"
    by (rule exI, rule conjI, rule shards_evict_step_eq [OF assms]) simp
qed

subsection \<open>Invariants\<close>

lemma well_formed_append_admit: "well_formed b \<Longrightarrow> well_formed (append_admit so b hash msg)"
  using shards_append_admit [of so b hash msg]
  by (auto simp: well_formed_def append_admit_fields)

lemma well_formed_evict_step: "well_formed b \<Longrightarrow> well_formed (evict_step so b msg)"
proof (cases "messages (shards b ! getShardIndex b (id_hash (entry msg)))")
  case Nil
  assume "well_formed b"
  then show ?thesis using Nil by (simp add: evict_step_empty)
next
  case (Cons front rest)
  assume "well_formed b"
  then show ?thesis using evict_step_front(3) [OF Cons, of so]
    by (auto simp: well_formed_def evict_step_fields)
qed

lemma consistent_append_admit:
  assumes wf: "well_formed b" and c: "consistent so b"
  shows "consistent so (append_admit so b hash msg)"
proof -
  define i where "i = getShardIndex b hash"
  have i: "i < length (shards b)" unfolding i_def using wf by (rule getShardIndex_less)
  obtain shard' where s: "shards (append_admit so b hash msg) = (shards b)[i := shard']"
    "messages shard' = messages (shards b ! i) @ [msg]"
    "bytes shard' = bytes (shards b ! i) + estimateSize so msg"
    "count shard' = count (shards b ! i) + 1"
    using shards_append_admit [of so b hash msg] unfolding i_def by blast
  have old: "bytes (shards b ! i) = sum_list (map (estimateSize so) (messages (shards b ! i)))"
    "count (shards b ! i) = length (messages (shards b ! i))"
    using c i by (simp_all add: consistent_def)
  have new: "bytes shard' = sum_list (map (estimateSize so) (messages shard'))"
    "count shard' = length (messages shard')"
    by (simp_all add: s old)
  have each: "\<forall>shard \<in> set ((shards b)[i := shard']).
      bytes shard = sum_list (map (estimateSize so) (messages shard))
      \<and> count shard = length (messages shard)"
  proof
    fix shard assume "shard \<in> set ((shards b)[i := shard'])"
    then have "shard = shard' \<or> shard \<in> set (shards b)"
      using set_update_subset_insert [of "shards b" i shard'] by auto
    then show "bytes shard = sum_list (map (estimateSize so) (messages shard))
      \<and> count shard = length (messages shard)"
      using new c by (auto simp: consistent_def)
  qed
  have tb: "sum_list (map bytes ((shards b)[i := shard'])) = total_bytes b + estimateSize so msg"
    using sum_list_map_update [OF i, of bytes shard'] c by (simp add: consistent_def s)
  have tm: "sum_list (map count ((shards b)[i := shard'])) = total_messages b + 1"
    using sum_list_map_update [OF i, of count shard'] c by (simp add: consistent_def s)
  show ?thesis
    unfolding consistent_def s(1) append_admit_fields using each tb tm by simp
qed

lemma consistent_evict_step:
  assumes wf: "well_formed b" and c: "consistent so b"
  shows "consistent so (evict_step so b msg)"
proof (cases "messages (shards b ! getShardIndex b (id_hash (entry msg)))")
  case Nil
  then show ?thesis using c by (simp add: evict_step_empty)
next
  case (Cons front rest)
  define i where "i = getShardIndex b (id_hash (entry msg))"
  have i: "i < length (shards b)" unfolding i_def using wf by (rule getShardIndex_less)
  have m: "messages (shards b ! i) = front # rest" using Cons by (simp add: i_def)
  obtain shard' where s: "shards (evict_step so b msg) = (shards b)[i := shard']"
    "messages shard' = rest"
    "bytes shard' = bytes (shards b ! i) - estimateSize so front"
    "count shard' = count (shards b ! i) - 1"
    using evict_step_front(3) [OF Cons, of so] unfolding i_def by blast
  have old: "bytes (shards b ! i) = estimateSize so front + sum_list (map (estimateSize so) rest)"
    "count (shards b ! i) = Suc (length rest)"
    using c i m by (simp_all add: consistent_def)
  have new: "bytes shard' = sum_list (map (estimateSize so) (messages shard'))"
    "count shard' = length (messages shard')"
    by (simp_all add: s old)
  have each: "\<forall>shard \<in> set ((shards b)[i := shard']).
      bytes shard = sum_list (map (estimateSize so) (messages shard))
      \<and> count shard = length (messages shard)"
  proof
    fix shard assume "shard \<in> set ((shards b)[i := shard'])"
    then have "shard = shard' \<or> shard \<in> set (shards b)"
      using set_update_subset_insert [of "shards b" i shard'] by auto
    then show "bytes shard = sum_list (map (estimateSize so) (messages shard))
      \<and> count shard = length (messages shard)"
      using new c by (auto simp: consistent_def)
  qed
  have tb: "sum_list (map bytes ((shards b)[i := shard'])) = total_bytes b - estimateSize so front"
    using sum_list_map_update [OF i, of bytes shard'] c by (simp add: consistent_def s old)
  have tm: "sum_list (map count ((shards b)[i := shard'])) = total_messages b - 1"
    using sum_list_map_update [OF i, of count shard'] c by (simp add: consistent_def s old)
  show ?thesis
    unfolding consistent_def s(1) evict_step_front(1,2) [OF Cons] using each tb tm by simp
qed

text \<open>No subtraction of \<^verbatim>\<open>evict\<close> takes more than its counter holds.\<close>

lemma evict_step_no_underflow:
  assumes wf: "well_formed b" and c: "consistent so b"
    and m: "messages (shards b ! getShardIndex b (id_hash (entry msg))) = front # rest"
  shows "estimateSize so front \<le> bytes (shards b ! getShardIndex b (id_hash (entry msg)))
    \<and> estimateSize so front \<le> total_bytes b
    \<and> 1 \<le> count (shards b ! getShardIndex b (id_hash (entry msg)))
    \<and> 1 \<le> total_messages b"
proof -
  define i where "i = getShardIndex b (id_hash (entry msg))"
  have i: "i < length (shards b)" unfolding i_def using wf by (rule getShardIndex_less)
  have old: "bytes (shards b ! i) = estimateSize so front + sum_list (map (estimateSize so) rest)"
    "count (shards b ! i) = Suc (length rest)"
    using c i m by (simp_all add: consistent_def i_def)
  have "bytes (shards b ! i) \<le> sum_list (map bytes (shards b))"
    using i by (intro member_le_sum_list) simp_all
  moreover have "count (shards b ! i) \<le> sum_list (map count (shards b))"
    using i by (intro member_le_sum_list) simp_all
  ultimately show ?thesis using old c by (simp add: consistent_def i_def)
qed

lemma buffer_inv_init: "0 < shard_count cfg \<Longrightarrow> buffer_inv so (MessageBuffer_init cfg lbi)"
  by (simp add: buffer_inv_def well_formed_def consistent_def MessageBuffer_init_def Shard_init_def)

lemma buffer_inv_append_admit:
  "buffer_inv so b \<Longrightarrow> total_bytes b + estimateSize so msg \<le> max_bytes (config b) \<Longrightarrow>
   buffer_inv so (append_admit so b hash msg)"
  by (simp add: buffer_inv_def well_formed_append_admit consistent_append_admit append_admit_fields)

lemma buffer_inv_evict_step: "buffer_inv so b \<Longrightarrow> buffer_inv so (evict_step so b msg)"
proof (cases "messages (shards b ! getShardIndex b (id_hash (entry msg)))")
  case Nil
  assume "buffer_inv so b"
  then show ?thesis using Nil by (simp add: evict_step_empty)
next
  case (Cons front rest)
  assume "buffer_inv so b"
  then show ?thesis
    by (auto simp: buffer_inv_def well_formed_evict_step consistent_evict_step
        evict_step_front(1) [OF Cons] evict_step_fields)
qed

lemma buffer_inv_evict: "buffer_inv so b \<Longrightarrow> buffer_inv so (evict so b flushed)"
  unfolding evict_def
  by (induction flushed arbitrary: b) (simp_all add: buffer_inv_evict_step)

lemma config_evict: "config (evict so b flushed) = config b"
  unfolding evict_def
  by (induction flushed arbitrary: b) (simp_all add: evict_step_fields)

lemma buffer_inv_clear: "buffer_inv so b \<Longrightarrow> buffer_inv so (clear b)"
  by (simp add: buffer_inv_def well_formed_def consistent_def clear_def comp_def)

lemma buffer_op_inv:
  "buffer_inv so b \<Longrightarrow> buffer_op so b x = Some b' \<Longrightarrow> buffer_inv so b' \<and> config b' = config b"
proof (cases x)
  case (Append hash msg)
  assume "buffer_inv so b" "buffer_op so b x = Some b'"
  then show ?thesis
    using append_cases [of so b hash msg b'] Append
    by (auto simp: buffer_inv_append_admit append_admit_fields)
next
  case (Evict flushed)
  assume "buffer_inv so b" "buffer_op so b x = Some b'"
  then show ?thesis using Evict by (auto simp: buffer_inv_evict config_evict)
next
  case Clear
  assume "buffer_inv so b" "buffer_op so b x = Some b'"
  then show ?thesis using Clear by (auto simp: buffer_inv_clear) (simp add: clear_def)
qed

lemma run_ops_inv:
  "buffer_inv so b \<Longrightarrow> run_ops so b ops = Some b' \<Longrightarrow> buffer_inv so b' \<and> config b' = config b"
proof (induction ops arbitrary: b)
  case Nil
  then show ?case by simp
next
  case (Cons x ops)
  from Cons.prems(2) obtain b1 where b1: "buffer_op so b x = Some b1" "run_ops so b1 ops = Some b'"
    by (auto split: option.splits)
  from buffer_op_inv [OF Cons.prems(1) b1(1)] Cons.IH [OF _ b1(2)]
  show ?case by simp
qed

lemma sums_of_shards:
  "\<forall>shard \<in> set xs. bytes shard = sum_list (map f (messages shard))
       \<and> count shard = length (messages shard) \<Longrightarrow>
   sum_list (map bytes xs) = sum_list (map f (concat (map messages xs)))
     \<and> sum_list (map count xs) = length (concat (map messages xs))"
  by (induction xs) auto

lemma consistent_total_queued:
  "consistent so b \<Longrightarrow> total_bytes b = sum_list (map (estimateSize so) (queued b))
     \<and> total_messages b = length (queued b)"
  using sums_of_shards [of "shards b" "estimateSize so"]
  by (simp add: consistent_def queued_def)

text \<open>
  With one thread the cap holds along every run from the constructed buffer, and the
  byte counter is the summed estimated size of the queued messages.
\<close>

lemma sequential_byte_cap:
  "0 < shard_count cfg \<Longrightarrow> run_ops so (MessageBuffer_init cfg lbi) ops = Some b' \<Longrightarrow>
   total_bytes b' \<le> max_bytes cfg
     \<and> total_bytes b' = sum_list (map (estimateSize so) (queued b'))"
proof -
  assume a: "0 < shard_count cfg" "run_ops so (MessageBuffer_init cfg lbi) ops = Some b'"
  then have i: "buffer_inv so b' \<and> config b' = config (MessageBuffer_init cfg lbi)"
    using run_ops_inv [OF buffer_inv_init] by blast
  then have "total_bytes b' \<le> max_bytes cfg"
    by (auto simp: buffer_inv_def MessageBuffer_init_def)
  moreover from i have "total_bytes b' = sum_list (map (estimateSize so) (queued b'))"
    using consistent_total_queued [of so b'] by (simp add: buffer_inv_def)
  ultimately show ?thesis by simp
qed

subsection \<open>scanForQuery and sliceForLeaf in closed form\<close>





lemma length_slice_take:
  "n \<le> length (messages shard) \<Longrightarrow> length (slice_take n shard r) = length r + n"
  by (induction n arbitrary: r) (auto split: list.split)

lemma set_slice_take: "set (slice_take n shard r) \<subseteq> set r \<union> set (messages shard)"
proof (induction n arbitrary: r)
  case 0
  show ?case by simp
next
  case (Suc n)
  define r' where "r' = (case messages shard of [] \<Rightarrow> r | front # rest \<Rightarrow> r @ [front])"
  have "set r' \<subseteq> set r \<union> set (messages shard)"
    by (auto simp: r'_def split: list.splits)
  moreover have "set (slice_take n shard r') \<subseteq> set r' \<union> set (messages shard)"
    by (rule Suc.IH)
  ultimately show ?case by (auto simp: r'_def)
qed

lemma length_slice_shards:
  "length (shards b) = shard_count (config b) \<Longrightarrow> length r \<le> k \<Longrightarrow>
   length (slice_shards b k i r) = min k (length r + length (concat (map messages (drop i (shards b)))))"
proof (induction b k i r rule: slice_shards.induct)
  case (1 b k i r)
  show ?case
  proof (cases "i < shard_count (config b) \<and> length r < k")
    case True
    define t where "t = min (k - length r) (length (messages (shards b ! i)))"
    have len: "length (slice_take t (shards b ! i) r) = length r + t"
      by (rule length_slice_take) (simp add: t_def)
    have "length r + t \<le> k"
      unfolding t_def using True by arith
    then have le: "length (slice_take t (shards b ! i) r) \<le> k"
      by (simp only: len)
    have dr: "drop i (shards b) = shards b ! i # drop (Suc i) (shards b)"
      using True "1.prems"(1) by (simp add: Cons_nth_drop_Suc)
    have "length (slice_shards b k i r) = length (slice_shards b k (Suc i) (slice_take t (shards b ! i) r))"
      using True by (subst slice_shards.simps) (simp add: t_def Let_def)
    also have "\<dots> = min k (length (slice_take t (shards b ! i) r) + length (concat (map messages (drop (Suc i) (shards b)))))"
      using "1.IH" [OF True refl refl "1.prems"(1)] le by (simp add: t_def)
    also have "\<dots> = min k (length r + t + length (concat (map messages (drop (Suc i) (shards b)))))"
      by (simp only: len)
    also have "\<dots> = min k (length r + (length (messages (shards b ! i))
        + length (concat (map messages (drop (Suc i) (shards b))))))"
      unfolding t_def using True by arith
    also have "\<dots> = min k (length r + length (concat (map messages (drop i (shards b)))))"
      by (simp add: dr)
    finally show ?thesis .
  next
    case False
    then have r: "slice_shards b k i r = r" by (subst slice_shards.simps) auto
    show ?thesis
    proof (cases "i < shard_count (config b)")
      case True
      with False "1.prems"(2) have "length r = k" by simp
      then show ?thesis by (simp add: r)
    next
      case False
      then show ?thesis using "1.prems" by (simp add: r)
    qed
  qed
qed

lemma set_slice_shards:
  "length (shards b) = shard_count (config b) \<Longrightarrow>
   set (slice_shards b k i r) \<subseteq> set r \<union> set (concat (map messages (shards b)))"
proof (induction b k i r rule: slice_shards.induct)
  case (1 b k i r)
  show ?case
  proof (cases "i < shard_count (config b) \<and> length r < k")
    case True
    define t where "t = min (k - length r) (length (messages (shards b ! i)))"
    have eq: "slice_shards b k i r = slice_shards b k (Suc i) (slice_take t (shards b ! i) r)"
      using True by (subst slice_shards.simps) (simp add: t_def Let_def)
    have "shards b ! i \<in> set (shards b)" using True "1.prems" by simp
    then have "set (messages (shards b ! i)) \<subseteq> set (concat (map messages (shards b)))" by auto
    moreover have "set (slice_take t (shards b ! i) r) \<subseteq> set r \<union> set (messages (shards b ! i))"
      by (rule set_slice_take)
    moreover have "set (slice_shards b k (Suc i) (slice_take t (shards b ! i) r))
        \<subseteq> set (slice_take t (shards b ! i) r) \<union> set (concat (map messages (shards b)))"
      using "1.IH" [OF True refl refl "1.prems"] by (simp add: t_def)
    ultimately show ?thesis unfolding eq by blast
  next
    case False
    then have "slice_shards b k i r = r" by (subst slice_shards.simps) auto
    then show ?thesis by simp
  qed
qed

lemma sliceForLeaf_Inr:
  "sliceForLeaf vmax b leaf_id max_batch = Inr batch \<Longrightarrow>
   max_batch \<le> vmax \<and> batch = slice_shards b max_batch 0 []"
  by (auto simp: sliceForLeaf_def split: if_splits)

lemma length_sliceForLeaf:
  "well_formed b \<Longrightarrow> sliceForLeaf vmax b leaf_id max_batch = Inr batch \<Longrightarrow>
   length batch = min max_batch (length (queued b))"
  by (auto simp: sliceForLeaf_def well_formed_def length_slice_shards queued_def split: if_splits)

lemma set_sliceForLeaf:
  "well_formed b \<Longrightarrow> sliceForLeaf vmax b leaf_id max_batch = Inr batch \<Longrightarrow>
   set batch \<subseteq> set (queued b)"
  using set_slice_shards [of b max_batch 0 "[]"]
  by (auto simp: sliceForLeaf_def well_formed_def queued_def split: if_splits)

subsection \<open>Slices hold queue fronts; routed queues\<close>

lemma set_slice_take_front:
  "set (slice_take n shard r) \<subseteq> set r \<union> set (take 1 (messages shard))"
proof (induction n arbitrary: r)
  case 0
  show ?case by simp
next
  case (Suc n)
  define r' where "r' = (case messages shard of [] \<Rightarrow> r | front # rest \<Rightarrow> r @ [front])"
  have "set r' \<subseteq> set r \<union> set (take 1 (messages shard))"
    by (auto simp: r'_def split: list.splits)
  moreover have "set (slice_take n shard r') \<subseteq> set r' \<union> set (take 1 (messages shard))"
    by (rule Suc.IH)
  ultimately show ?case by (auto simp: r'_def)
qed

lemma set_slice_shards_front:
  "length (shards b) = shard_count (config b) \<Longrightarrow>
   set (slice_shards b k i r) \<subseteq> set r \<union> (\<Union>shard \<in> set (shards b). set (take 1 (messages shard)))"
proof (induction b k i r rule: slice_shards.induct)
  case (1 b k i r)
  show ?case
  proof (cases "i < shard_count (config b) \<and> length r < k")
    case True
    define t where "t = min (k - length r) (length (messages (shards b ! i)))"
    have eq: "slice_shards b k i r = slice_shards b k (Suc i) (slice_take t (shards b ! i) r)"
      using True by (subst slice_shards.simps) (simp add: t_def Let_def)
    have "shards b ! i \<in> set (shards b)" using True "1.prems" by simp
    then have "set (take 1 (messages (shards b ! i)))
        \<subseteq> (\<Union>shard \<in> set (shards b). set (take 1 (messages shard)))" by blast
    moreover have "set (slice_take t (shards b ! i) r) \<subseteq> set r \<union> set (take 1 (messages (shards b ! i)))"
      by (rule set_slice_take_front)
    moreover have "set (slice_shards b k (Suc i) (slice_take t (shards b ! i) r))
        \<subseteq> set (slice_take t (shards b ! i) r) \<union> (\<Union>shard \<in> set (shards b). set (take 1 (messages shard)))"
      using "1.IH" [OF True refl refl "1.prems"] by (simp add: t_def)
    ultimately show ?thesis unfolding eq by blast
  next
    case False
    then have "slice_shards b k i r = r" by (subst slice_shards.simps) auto
    then show ?thesis by simp
  qed
qed

text \<open>Whatever a slice holds is the oldest message of some shard's queue.\<close>

lemma sliceForLeaf_front:
  assumes "well_formed b" and "sliceForLeaf vmax b leaf_id max_batch = Inr batch" and "msg \<in> set batch"
  shows "\<exists>j rest. j < length (shards b) \<and> messages (shards b ! j) = msg # rest"
proof -
  have "batch = slice_shards b max_batch 0 []" using assms(2) by (simp add: sliceForLeaf_Inr)
  then have "msg \<in> (\<Union>shard \<in> set (shards b). set (take 1 (messages shard)))"
    using set_slice_shards_front [of b max_batch 0 "[]"] assms(1,3) by (auto simp: well_formed_def)
  then obtain shard where sh: "shard \<in> set (shards b)" "msg \<in> set (take 1 (messages shard))" by blast
  from sh(2) obtain rest where "messages shard = msg # rest"
    by (cases "messages shard") auto
  moreover from sh(1) obtain j where "j < length (shards b)" "shards b ! j = shard"
    by (auto simp: in_set_conv_nth)
  ultimately show ?thesis by blast
qed

lemma routedD:
  "routed b \<Longrightarrow> j < length (shards b) \<Longrightarrow> msg \<in> set (messages (shards b ! j)) \<Longrightarrow>
   getShardIndex b (id_hash (entry msg)) = j"
  by (auto simp: routed_def list_all_iff)

lemma routed_append_admit:
  assumes "well_formed b" and "routed b"
    and "getShardIndex b (id_hash (entry msg)) = getShardIndex b hash"
  shows "routed (append_admit so b hash msg)"
proof -
  have i: "getShardIndex b hash < length (shards b)" using assms(1) by (rule getShardIndex_less)
  have g: "\<And>h. getShardIndex (append_admit so b hash msg) h = getShardIndex b h"
    by (simp add: getShardIndex_def append_admit_fields)
  show ?thesis
    unfolding routed_def list_all_iff g
    using assms(2,3) i
    by (auto simp: shards_append_admit_eq nth_list_update routed_def list_all_iff)
qed

subsection \<open>The example buffers\<close>

lemma estimateSize_msg_v1: "estimateSize 216 (msg_v1 ep) = 246"
  by (simp add: estimateSize_def msg_v1_def entry_v1_def sizeof_float_def sizeof_TagId_def)

lemma tight_facts:
  "config tight0 = cfg_tight" "total_bytes tight0 = 0"
  "config tight1 = cfg_tight" "total_bytes tight1 = 246"
  "config tight2 = cfg_tight" "total_bytes tight2 = 492"
  by (simp_all add: tight2_def tight1_def tight0_def append_admit_fields estimateSize_msg_v1
      MessageBuffer_init_def)

lemma max_bytes_cfg_tight: "max_bytes cfg_tight = 492"
  by (simp add: cfg_tight_def)


lemma estimateSize_msg_v2: "estimateSize 216 msg_v2 = 246"
  by (simp add: estimateSize_def msg_v2_def entry_v2_def sizeof_float_def sizeof_TagId_def)

lemma buf_facts:
  "config buf0 = cfg_small" "total_bytes buf0 = 0"
  "config buf1 = cfg_small" "total_bytes buf1 = 246"
  "config buf2 = cfg_small" "total_bytes buf2 = 492"
  "config buf3 = cfg_small" "total_bytes buf3 = 738"
  by (simp_all add: buf3_def buf2_def buf1_def buf0_def append_admit_fields estimateSize_msg_v1
      MessageBuffer_init_def)

lemma max_bytes_cfg_small: "max_bytes cfg_small = 1000"
  by (simp add: cfg_small_def)

lemma append_buf0: "append_msg 216 buf0 5 (msg_v1 1) = Some buf1"
  unfolding buf1_def by (rule append_fits) (simp add: buf_facts estimateSize_msg_v1 max_bytes_cfg_small)

lemma append_buf1: "append_msg 216 buf1 5 (msg_v1 2) = Some buf2"
  unfolding buf2_def by (rule append_fits) (simp add: buf_facts estimateSize_msg_v1 max_bytes_cfg_small)

lemma append_buf2: "append_msg 216 buf2 5 (msg_v1 3) = Some buf3"
  unfolding buf3_def by (rule append_fits) (simp add: buf_facts estimateSize_msg_v1 max_bytes_cfg_small)

lemma append_buf1_v2: "append_msg 216 buf1 6 msg_v2 = Some buf12"
  unfolding buf12_def by (rule append_fits) (simp add: buf_facts estimateSize_msg_v2 max_bytes_cfg_small)

lemma well_formed_buf0: "well_formed buf0"
  by (simp add: well_formed_def buf0_def MessageBuffer_init_def cfg_small_def)

lemma sliceForLeaf_216:
  "max_batch \<le> max_size_216 \<Longrightarrow>
   sliceForLeaf max_size_216 b leaf_id max_batch = Inr (slice_shards b max_batch 0 [])"
  by (simp add: sliceForLeaf_def)

lemma small_batches: "(1::nat) \<le> max_size_216" "(10::nat) \<le> max_size_216"
  by (simp_all add: max_size_216_def)

lemma buf_v2_facts:
  "well_formed buf_v2" "routed buf_v2" "well_formed buf1" "routed buf1"
  "config buf_v2 = cfg_small" "total_bytes buf_v2 = 246"
  by code_simp+

lemma append_buf_v2: "append_msg 216 buf_v2 5 (msg_v1 1) = Some buf21"
  unfolding buf21_def
  by (rule append_fits) (simp add: buf_v2_facts estimateSize_msg_v1 max_bytes_cfg_small)

lemma append_buf1_again: "append_msg 216 buf1 5 (msg_v1 1) = Some buf11"
  unfolding buf11_def
  by (rule append_fits) (simp add: buf_facts estimateSize_msg_v1 max_bytes_cfg_small)

section \<open>Message buffer: the claims\<close>

text \<open>
  C9: the estimated size of a message is the fixed record overhead, plus 4 bytes per
  vector element, plus the byte lengths of the id, the tenant and the namespace, plus 4
  bytes per tag.
\<close>

theorem estimateSize_formula:
  "estimateSize sizeof_BTreeMessage msg =
     sizeof_BTreeMessage + length (vector (entry msg)) * 4 + length (entry_id (entry msg))
       + length (tenant (entry msg)) + length (namespace_id (entry msg))
       + length (tags (entry msg)) * 4"
  by (simp add: estimateSize_def sizeof_float_def sizeof_TagId_def Let_def)

theorem estimateSize_formula_witness: "estimateSize 216 (msg_v1 1) = 246"
  using estimateSize_formula [of 216 "msg_v1 1"] by (simp add: msg_v1_def entry_v1_def)

text \<open>
  C10: the result of \<^verbatim>\<open>sliceForLeaf\<close> does not depend on the leaf id: on the same buffer
  and with the same \<open>max_batch\<close>, two leaf ids give the same list of messages.
\<close>

theorem sliceForLeaf_ignores_leaf_id:
  "sliceForLeaf vector_max_size b leaf_a max_batch = sliceForLeaf vector_max_size b leaf_b max_batch"
  by (simp add: sliceForLeaf_def)

theorem sliceForLeaf_ignores_leaf_id_witness:
  "sliceForLeaf max_size_216 buf3 0 10 = sliceForLeaf max_size_216 buf3 7 10"
  using sliceForLeaf_ignores_leaf_id [of max_size_216 buf3 0 10 7] by simp

text \<open>
  C5, at a failing input: the buffer \<open>tight2\<close> is full to the byte. The append of a
  third message waits, times out and returns as any other call of this \<^verbatim>\<open>void\<close>
  function does: the buffer is unchanged, and nothing tells the caller that the
  message was dropped.
\<close>

theorem append_full_returns_silently:
  "total_bytes tight2 = max_bytes (config tight2)
   \<and> append_msg 216 tight2 5 (msg_v1 3) = Some tight2"
proof -
  have "append_msg 216 tight2 5 (msg_v1 3) = Some tight2"
    by (rule append_full) (simp_all add: tight_facts estimateSize_msg_v1 max_bytes_cfg_tight)
  then show ?thesis by (simp add: tight_facts max_bytes_cfg_tight)
qed




text \<open>
  C3, at a failing input: \<open>''v1''\<close> is appended three times (epochs 1, 2, 3) to the empty
  buffer \<open>buf0\<close>. All three messages stay queued and none is marked; the slice is three
  copies of the oldest one, not one message with the latest epoch, and the scan returns
  three entries.
\<close>

theorem dedupe_three_appends_slice:
  "run_ops 216 buf0 [Append 5 (msg_v1 1), Append 5 (msg_v1 2), Append 5 (msg_v1 3)] = Some buf3
   \<and> map msg_epoch (messages (shards buf3 ! 1)) = [1, 2, 3]
   \<and> sliceForLeaf max_size_216 buf3 0 10 = Inr [msg_v1 1, msg_v1 1, msg_v1 1]
   \<and> scanForQuery buf3 [] [] [] [] 10 = [entry_v1, entry_v1, entry_v1]"
proof -
  have "run_ops 216 buf0 [Append 5 (msg_v1 1), Append 5 (msg_v1 2), Append 5 (msg_v1 3)] = Some buf3"
    by (simp add: append_buf0 append_buf1 append_buf2)
  moreover have "map msg_epoch (messages (shards buf3 ! 1)) = [1, 2, 3]" by code_simp
  moreover have "sliceForLeaf max_size_216 buf3 0 10 = Inr [msg_v1 1, msg_v1 1, msg_v1 1]"
    proof -
      have "slice_shards buf3 10 0 [] = [msg_v1 1, msg_v1 1, msg_v1 1]" by code_simp
      then show ?thesis by (simp only: sliceForLeaf_216 [OF small_batches(2)])
    qed
  moreover have "scanForQuery buf3 [] [] [] [] 10 = [entry_v1, entry_v1, entry_v1]" by code_simp
  ultimately show ?thesis by simp
qed

text \<open>
  C4, at a failing input: two calls of \<^verbatim>\<open>append\<close> on the empty buffer \<open>cap0\<close>, which has
  room for one message. Scheduled check, check, admit, admit, both pass the cap check
  before either adds its bytes, and the byte counter ends at 492 against a cap of 246.
  Scheduled one call after the other, the second call waits, times out and the counter
  ends at 246.
\<close>

theorem concurrent_appends_exceed_cap:
  "max_bytes (config cap0) = 246 \<and> total_bytes cap0 = 0
   \<and> map pc (snd (run_schedule 216 (cap0, [call_a, call_b]) [0, 1, 0, 1])) = [Returned, Returned]
   \<and> max_bytes (config (fst (run_schedule 216 (cap0, [call_a, call_b]) [0, 1, 0, 1]))) = 246
   \<and> bytes_used (getStats (fst (run_schedule 216 (cap0, [call_a, call_b]) [0, 1, 0, 1]))) = 492
   \<and> map pc (snd (run_schedule 216 (cap0, [call_a, call_b]) [0, 0, 1, 1])) = [Returned, Returned]
   \<and> bytes_used (getStats (fst (run_schedule 216 (cap0, [call_a, call_b]) [0, 0, 1, 1]))) = 246"
  by code_simp

text \<open>
  C6, as stated, fails on a buffer that already holds a message: the slice taken after
  the append holds the older message too, and evicting the slice leaves the counters
  below their values before the append.
\<close>

theorem roundtrip_nonempty_buffer_counterexample:
  "append_msg 216 buf1 6 msg_v2 = Some buf12
   \<and> sliceForLeaf max_size_216 buf12 0 10 = Inr [msg_v1 1, msg_v2]
   \<and> message_count (getStats buf1) = 1 \<and> bytes_used (getStats buf1) = 246
   \<and> message_count (getStats (evict 216 buf12 [msg_v1 1, msg_v2])) = 0
   \<and> bytes_used (getStats (evict 216 buf12 [msg_v1 1, msg_v2])) = 0"
proof -
  have "sliceForLeaf max_size_216 buf12 0 10 = Inr [msg_v1 1, msg_v2]"
    proof -
      have "slice_shards buf12 10 0 [] = [msg_v1 1, msg_v2]" by code_simp
      then show ?thesis by (simp only: sliceForLeaf_216 [OF small_batches(2)])
    qed
  moreover have "message_count (getStats buf1) = 1 \<and> bytes_used (getStats buf1) = 246" by code_simp
  moreover have "message_count (getStats (evict 216 buf12 [msg_v1 1, msg_v2])) = 0
   \<and> bytes_used (getStats (evict 216 buf12 [msg_v1 1, msg_v2])) = 0" by code_simp
  ultimately show ?thesis using append_buf1_v2 by simp
qed

text \<open>
  C6, amended: on every buffer, after an admitted append of a message under a hash that
  falls into the shard of the message's own id_hash, if \<^verbatim>\<open>sliceForLeaf\<close> returns exactly
  that message, then \<^verbatim>\<open>evict\<close> of the slice leaves the message count and the per-shard
  counts as they were before the append, and the byte counter and the per-shard bytes
  too when every message queued before sat in the shard of its own id_hash.
\<close>

theorem append_slice_evict_restores_counters:
  assumes "well_formed b"
    and "total_bytes b + estimateSize so msg \<le> max_bytes (config b)"
    and "getShardIndex b (id_hash (entry msg)) = getShardIndex b hash"
    and "append_msg so b hash msg = Some b'"
    and "sliceForLeaf vmax b' leaf_id max_batch = Inr [msg]"
  shows "message_count (getStats (evict so b' [msg])) = message_count (getStats b)
     \<and> shard_sizes (getStats (evict so b' [msg])) = shard_sizes (getStats b)
     \<and> (routed b \<longrightarrow>
          bytes_used (getStats (evict so b' [msg])) = bytes_used (getStats b)
          \<and> map bytes (shards (evict so b' [msg])) = map bytes (shards b))"
proof -
  define i where "i = getShardIndex b hash"
  have i: "i < length (shards b)" unfolding i_def using assms(1) by (rule getShardIndex_less)
  have b': "b' = append_admit so b hash msg"
    using assms(2,4) by (simp add: append_fits)
  have wf': "well_formed b'" unfolding b' using assms(1) by (rule well_formed_append_admit)
  have gi: "getShardIndex b' (id_hash (entry msg)) = i"
    unfolding i_def b' using assms(3) by (simp add: getShardIndex_def append_admit_fields)
  have sh': "shards b' = (shards b)[i := (shards b ! i)
       \<lparr>latest_map := (if dedupe_enabled (config b)
                       then (latest_map (shards b ! i))(hash \<mapsto> msg)
                       else latest_map (shards b ! i)),
        messages := messages (shards b ! i) @ [msg],
        bytes := bytes (shards b ! i) + estimateSize so msg,
        count := count (shards b ! i) + 1\<rparr>]"
    unfolding b' i_def by (rule shards_append_admit_eq)
  have mi: "messages (shards b' ! i) = messages (shards b ! i) @ [msg]"
    using i by (simp add: sh')
  obtain front rest where fr: "messages (shards b' ! getShardIndex b' (id_hash (entry msg))) = front # rest"
    unfolding gi mi by (cases "messages (shards b ! i)") auto
  have ev: "evict so b' [msg] = evict_step so b' msg" by (simp add: evict_def)
  have tm: "total_messages (evict_step so b' msg) = total_messages b"
    unfolding evict_step_front(2) [OF fr] by (simp add: b' append_admit_fields)
  have cnt: "map count (shards (evict_step so b' msg)) = map count (shards b)"
    unfolding shards_evict_step_eq [OF fr] gi using i
    by (simp add: sh' map_update list_update_same_conv)
  have bytes: "bytes_used (getStats (evict so b' [msg])) = bytes_used (getStats b)
          \<and> map bytes (shards (evict so b' [msg])) = map bytes (shards b)" if r: "routed b"
  proof -
    have r': "routed b'" unfolding b' using assms(1) r assms(3) by (rule routed_append_admit)
    obtain j rest' where j: "j < length (shards b')" "messages (shards b' ! j) = msg # rest'"
      using sliceForLeaf_front [OF wf' assms(5), of msg] by auto
    have "getShardIndex b' (id_hash (entry msg)) = j"
      using routedD [OF r' j(1), of msg] j(2) by simp
    then have "front = msg" using fr j(2) by simp
    then have fr': "messages (shards b' ! getShardIndex b' (id_hash (entry msg))) = msg # rest"
      using fr by simp
    have tb: "total_bytes (evict_step so b' msg) = total_bytes b"
      unfolding evict_step_front(1) [OF fr'] by (simp add: b' append_admit_fields)
    have sb: "map bytes (shards (evict_step so b' msg)) = map bytes (shards b)"
      unfolding shards_evict_step_eq [OF fr'] gi using i
      by (simp add: sh' map_update list_update_same_conv)
    show ?thesis using tb sb by (simp add: ev getStats_def)
  qed
  show ?thesis using tm cnt bytes by (simp add: ev getStats_def)
qed

theorem append_slice_evict_restores_counters_witness:
  "well_formed buf_v2 \<and> routed buf_v2
   \<and> total_bytes buf_v2 + estimateSize 216 (msg_v1 1) \<le> max_bytes (config buf_v2)
   \<and> getShardIndex buf_v2 (id_hash (entry (msg_v1 1))) = getShardIndex buf_v2 5
   \<and> append_msg 216 buf_v2 5 (msg_v1 1) = Some buf21
   \<and> sliceForLeaf max_size_216 buf21 0 1 = Inr [msg_v1 1]
   \<and> message_count (getStats buf_v2) = 1 \<and> bytes_used (getStats buf_v2) = 246
   \<and> message_count (getStats (evict 216 buf21 [msg_v1 1])) = message_count (getStats buf_v2)
   \<and> shard_sizes (getStats (evict 216 buf21 [msg_v1 1])) = shard_sizes (getStats buf_v2)
   \<and> bytes_used (getStats (evict 216 buf21 [msg_v1 1])) = bytes_used (getStats buf_v2)
   \<and> map bytes (shards (evict 216 buf21 [msg_v1 1])) = map bytes (shards buf_v2)
   \<and> well_formed buf1 \<and> routed buf1
   \<and> append_msg 216 buf1 5 (msg_v1 1) = Some buf11
   \<and> sliceForLeaf max_size_216 buf11 0 1 = Inr [msg_v1 1]
   \<and> message_count (getStats buf1) = 1
   \<and> message_count (getStats (evict 216 buf11 [msg_v1 1])) = message_count (getStats buf1)
   \<and> shard_sizes (getStats (evict 216 buf11 [msg_v1 1])) = shard_sizes (getStats buf1)
   \<and> bytes_used (getStats (evict 216 buf11 [msg_v1 1])) = bytes_used (getStats buf1)
   \<and> map bytes (shards (evict 216 buf11 [msg_v1 1])) = map bytes (shards buf1)"
proof -
  have f1: "total_bytes buf_v2 + estimateSize 216 (msg_v1 1) \<le> max_bytes (config buf_v2)"
    by (simp add: buf_v2_facts estimateSize_msg_v1 max_bytes_cfg_small)
  have g1: "getShardIndex buf_v2 (id_hash (entry (msg_v1 1))) = getShardIndex buf_v2 5"
    by (simp add: msg_v1_def entry_v1_def)
  have s1: "sliceForLeaf max_size_216 buf21 0 1 = Inr [msg_v1 1]"
    proof -
      have "slice_shards buf21 1 0 [] = [msg_v1 1]" by code_simp
      then show ?thesis by (simp only: sliceForLeaf_216 [OF small_batches(1)])
    qed
  have v1: "message_count (getStats buf_v2) = 1 \<and> bytes_used (getStats buf_v2) = 246" by code_simp
  have f2: "total_bytes buf1 + estimateSize 216 (msg_v1 1) \<le> max_bytes (config buf1)"
    by (simp add: buf_facts estimateSize_msg_v1 max_bytes_cfg_small)
  have g2: "getShardIndex buf1 (id_hash (entry (msg_v1 1))) = getShardIndex buf1 5"
    by (simp add: msg_v1_def entry_v1_def)
  have s2: "sliceForLeaf max_size_216 buf11 0 1 = Inr [msg_v1 1]"
    proof -
      have "slice_shards buf11 1 0 [] = [msg_v1 1]" by code_simp
      then show ?thesis by (simp only: sliceForLeaf_216 [OF small_batches(1)])
    qed
  have v2: "message_count (getStats buf1) = 1" by code_simp
  note t1 = append_slice_evict_restores_counters
      [OF buf_v2_facts(1) f1 g1 append_buf_v2 s1]
  note t2 = append_slice_evict_restores_counters
      [OF buf_v2_facts(3) f2 g2 append_buf1_again s2]
  show ?thesis
    using t1 t2 buf_v2_facts(1-4) f1 g1 append_buf_v2 s1 v1 append_buf1_again s2 v2
    by (simp only: simp_thms)
qed

end
